theory Spec2Isabelle
  imports Main
begin

section \<open>Values of the embedded JavaScript fragment\<close>

text \<open>
  A function value carries an identity, the text that \<open>toString()\<close> gives for it and
  the methods its instances expose (method name and the text of that method).  Objects
  have an address (their identity), the function that constructed them and the
  arguments it was given.  \<open>Ret\<close> is the opaque value returned by a plain invocation.
  The four registries of the container are modelled as their own properties: names that
  collide with members inherited from \<open>Object.prototype\<close> are outside the model.
  Strings are ASCII.  The bodies of constructors and of invoked functions are user code:
  they are taken to return normally and to leave the container alone.
\<close>

datatype fn = Fn (fid: nat) (src: string) (methods: "(string \<times> string) list")

datatype val =
    Undefined
  | Null
  | Bool bool
  | Str string
  | Fun fn
  | Obj nat fn "val list"
  | Ret nat

text \<open>What \<open>bind\<close> documents as a concrete: \<open>Function|String|null\<close>.\<close>

datatype concrete = CFun fn | CStr string | CNull

text \<open>An abstract is a string; the nested \<open>make(concrete)\<close> may also pass \<open>null\<close>.\<close>

datatype abstract = AStr string | ANull

datatype error =
    TypeError
  | RangeError
  | ModuleNotFound string
  | Exception string string

datatype event =
    Constructed fn "val list"
  | CalledFn fn "val list"
  | CalledMethod val string "val list"

record binding =
  concrete :: concrete
  shared :: bool

record container =
  bindings :: "string \<rightharpoonup> binding"
  instances :: "string \<rightharpoonup> val"
  resolved :: "string \<rightharpoonup> bool"
  aliases :: "string \<rightharpoonup> string"
  modules :: "string \<rightharpoonup> fn"
  fresh :: nat
  events :: "event list"

type_synonym parameters = "string \<rightharpoonup> val"

text \<open>JavaScript truthiness on the values of the model.\<close>

fun truthy :: "val \<Rightarrow> bool" where
  "truthy Undefined = False"
| "truthy Null = False"
| "truthy (Bool b) = b"
| "truthy (Str s) = (s \<noteq> [])"
| "truthy (Fun f) = True"
| "truthy (Obj a f args) = True"
| "truthy (Ret a) = True"

text \<open>Reading a property: a missing key reads as \<open>undefined\<close>.\<close>

definition jsget :: "(string \<rightharpoonup> val) \<Rightarrow> string \<Rightarrow> val" where
  "jsget m k = (case m k of None \<Rightarrow> Undefined | Some v \<Rightarrow> v)"

text \<open>The property key an abstract is coerced to.\<close>

fun key :: "abstract \<Rightarrow> string" where
  "key (AStr s) = s"
| "key ANull = ''null''"

section \<open>Binding registry\<close>

definition dropStaleInstances :: "string \<Rightarrow> container \<Rightarrow> container" where
  "dropStaleInstances abstract c = c\<lparr>instances := (instances c)(abstract := None)\<rparr>"

definition bind :: "string \<Rightarrow> concrete \<Rightarrow> val \<Rightarrow> container \<Rightarrow> container" where
  "bind abstract conc shrd c =
     (let c1 = dropStaleInstances abstract c
      in c1\<lparr>bindings := (bindings c1)(abstract \<mapsto> \<lparr>concrete = conc, shared = truthy shrd\<rparr>)\<rparr>)"

definition isAlias :: "string \<Rightarrow> container \<Rightarrow> bool" where
  "isAlias abstract c = (case aliases c abstract of None \<Rightarrow> False | Some a \<Rightarrow> a \<noteq> [])"

text \<open>\<open>bound\<close> is only ever used for its truthiness; a binding object is always truthy.\<close>

definition bound :: "string \<Rightarrow> container \<Rightarrow> bool" where
  "bound abstract c =
     (bindings c abstract \<noteq> None \<or> truthy (jsget (instances c) abstract) \<or> isAlias abstract c)"

definition bindIf :: "string \<Rightarrow> concrete \<Rightarrow> val \<Rightarrow> container \<Rightarrow> container" where
  "bindIf abstract conc shrd c = (if \<not> bound abstract c then bind abstract conc shrd c else c)"

definition singleton :: "string \<Rightarrow> concrete \<Rightarrow> container \<Rightarrow> container" where
  "singleton abstract conc c = bind abstract conc (Bool True) c"

definition alias_reg :: "string \<Rightarrow> string \<Rightarrow> container \<Rightarrow> container" where
  "alias_reg abstract al c = c\<lparr>aliases := (aliases c)(al \<mapsto> abstract)\<rparr>"

definition getAlias :: "abstract \<Rightarrow> container \<Rightarrow> abstract" where
  "getAlias abstract c =
     (case aliases c (key abstract) of
        None \<Rightarrow> abstract
      | Some a \<Rightarrow> if a \<noteq> [] then AStr a else abstract)"

definition instance_reg :: "string \<Rightarrow> val \<Rightarrow> container \<Rightarrow> container" where
  "instance_reg abstract v c =
     c\<lparr>aliases := (aliases c)(abstract := None), instances := (instances c)(abstract \<mapsto> v)\<rparr>"

definition forgetInstance :: "string \<Rightarrow> container \<Rightarrow> container" where
  "forgetInstance abstract c =
     c\<lparr>instances := (instances c)(abstract := None),
       bindings := (bindings c)(abstract := None),
       aliases := (aliases c)(abstract := None)\<rparr>"

definition forgotAll :: "container \<Rightarrow> container" where
  "forgotAll c =
     c\<lparr>bindings := Map.empty, instances := Map.empty, resolved := Map.empty, aliases := Map.empty\<rparr>"

definition isShared :: "abstract \<Rightarrow> container \<Rightarrow> bool" where
  "isShared abstract c =
     (let shrd = (case bindings c (key abstract) of None \<Rightarrow> False | Some b \<Rightarrow> shared b)
      in jsget (instances c) (key abstract) \<noteq> Undefined \<or> shrd)"

fun isBuildable :: "concrete \<Rightarrow> abstract \<Rightarrow> bool" where
  "isBuildable (CFun f) abstract = True"
| "isBuildable (CStr s) (AStr a) = (s = a)"
| "isBuildable (CStr s) ANull = False"
| "isBuildable CNull (AStr a) = False"
| "isBuildable CNull ANull = True"

definition plus_prefixed :: "string \<Rightarrow> bool" where
  "plus_prefixed s = (case s of [] \<Rightarrow> False | x # xs \<Rightarrow> x = CHR ''+'')"

definition getConcrete :: "abstract \<Rightarrow> container \<Rightarrow> error + concrete" where
  "getConcrete abstract c =
     (case bindings c (key abstract) of
        None \<Rightarrow>
          (case abstract of
             ANull \<Rightarrow> Inl TypeError
           | AStr s \<Rightarrow> if plus_prefixed s then Inr (CStr s) else Inr (CStr (CHR ''+'' # s)))
      | Some b \<Rightarrow> Inr (concrete b))"

section \<open>Parameter introspection\<close>

text \<open>
  \<open>parseFunctionArguments\<close> matches the text of its argument against
  \<open>/^function\s*[^\(]*\(\s*([^\)]*)\)/m\<close>: at the start of a line the word
  \<open>function\<close>, then everything up to the first opening parenthesis, then the capture up
  to the first closing parenthesis.  White space is removed from the capture, which is
  split at commas; empty pieces are dropped.
\<close>

definition is_space :: "char \<Rightarrow> bool" where
  "is_space ch = (ch \<in> set [CHR '' '', CHR 0x09, CHR 0x0A, CHR 0x0B, CHR 0x0C, CHR 0x0D])"

definition is_line_end :: "char \<Rightarrow> bool" where
  "is_line_end ch = (ch = CHR 0x0A \<or> ch = CHR 0x0D)"

definition match_here :: "string \<Rightarrow> string option" where
  "match_here s =
     (if take 8 s = ''function'' then
        (case dropWhile (\<lambda>ch. ch \<noteq> CHR ''('') (drop 8 s) of
           [] \<Rightarrow> None
         | p # r \<Rightarrow>
             (let r1 = dropWhile is_space r
              in if dropWhile (\<lambda>ch. ch \<noteq> CHR '')'') r1 = [] then None
                 else Some (takeWhile (\<lambda>ch. ch \<noteq> CHR '')'') r1)))
      else None)"

fun match_lines :: "bool \<Rightarrow> string \<Rightarrow> string option" where
  "match_lines at_start [] = None"
| "match_lines at_start (ch # cs) =
     (if at_start then
        (case match_here (ch # cs) of
           Some cap \<Rightarrow> Some cap
         | None \<Rightarrow> match_lines (is_line_end ch) cs)
      else match_lines (is_line_end ch) cs)"

fun split_commas :: "string \<Rightarrow> string list" where
  "split_commas [] = [[]]"
| "split_commas (ch # cs) =
     (if ch = CHR '','' then [] # split_commas cs
      else (case split_commas cs of [] \<Rightarrow> [[ch]] | x # xs \<Rightarrow> (ch # x) # xs))"

definition parse_text :: "string \<Rightarrow> string list" where
  "parse_text s =
     (case match_lines True s of
        None \<Rightarrow> []
      | Some cap \<Rightarrow> filter (\<lambda>d. d \<noteq> []) (split_commas (filter (\<lambda>ch. \<not> is_space ch) cap)))"

text \<open>\<open>concrete.toString()\<close> fails on \<open>null\<close>.\<close>

definition parseFunctionArguments :: "concrete \<Rightarrow> error + string list" where
  "parseFunctionArguments conc =
     (case conc of
        CFun f \<Rightarrow> Inr (parse_text (src f))
      | CStr s \<Rightarrow> Inr (parse_text s)
      | CNull \<Rightarrow> Inl TypeError)"

section \<open>Resolver\<close>

text \<open>\<open>typeof concrete !== 'function' && concrete.match(/^\+/i)\<close>; \<open>null.match\<close> throws.\<close>

definition needAutoInject :: "concrete \<Rightarrow> error + bool" where
  "needAutoInject conc =
     (case conc of
        CFun f \<Rightarrow> Inr False
      | CStr s \<Rightarrow> Inr (plus_prefixed s)
      | CNull \<Rightarrow> Inl TypeError)"

text \<open>
  The external loader \<open>require\<close>: the \<open>modules\<close> field of the state says which names it
  finds, and the constructor each of them exports; a name it does not find raises
  "Cannot find module".
\<close>

definition require :: "string \<Rightarrow> container \<Rightarrow> error + concrete" where
  "require className c =
     (case modules c className of
        None \<Rightarrow> Inl (ModuleNotFound className)
      | Some f \<Rightarrow> Inr (CFun f))"

text \<open>The first four lines of \<open>build\<close>: \<open>concrete.replace(/\+/, '')\<close> drops the first plus.\<close>

definition autoInject :: "concrete \<Rightarrow> container \<Rightarrow> error + concrete" where
  "autoInject conc c =
     (case needAutoInject conc of
        Inl e \<Rightarrow> Inl e
      | Inr need \<Rightarrow>
          if need then
            (case conc of
               CStr s \<Rightarrow> require (remove1 (CHR ''+'') s) c
             | other \<Rightarrow> Inl TypeError)
          else Inr conc)"

text \<open>
  \<open>new (Function.prototype.bind.apply(concrete, instances))\<close>: binding anything but a
  function is a TypeError; a function yields a new object, recorded in \<open>events\<close>.  The
  field \<open>fresh\<close> is the next unused address.
\<close>

definition instantiateClass :: "concrete \<Rightarrow> val list \<Rightarrow> container \<Rightarrow> (error + val) \<times> container" where
  "instantiateClass conc insts c =
     (case conc of
        CFun f \<Rightarrow>
          (Inr (Obj (fresh c) f insts),
           c\<lparr>fresh := Suc (fresh c), events := events c @ [Constructed f insts]\<rparr>)
      | other \<Rightarrow> (Inl TypeError, c))"

text \<open>The abstract that the nested \<open>make(concrete, parameters)\<close> receives.\<close>

fun as_abstract :: "concrete \<Rightarrow> abstract" where
  "as_abstract (CStr s) = AStr s"
| "as_abstract CNull = ANull"
| "as_abstract (CFun f) = AStr (src f)"

text \<open>
  \<open>make\<close>, \<open>build\<close> and \<open>getDependencies\<close> call each other.  The first argument bounds
  the depth of nested \<open>make\<close> calls, as the call stack does: when it is used up the
  result is the RangeError of a stack overflow.  An error leaves the state as it was
  when the exception was thrown.
\<close>

function make :: "nat \<Rightarrow> abstract \<Rightarrow> parameters \<Rightarrow> container \<Rightarrow> (error + val) \<times> container"
  and build :: "nat \<Rightarrow> concrete \<Rightarrow> parameters \<Rightarrow> container \<Rightarrow> (error + val) \<times> container"
  and getDependencies ::
    "nat \<Rightarrow> string list \<Rightarrow> parameters \<Rightarrow> container \<Rightarrow> (error + val list) \<times> container"
where
  "make 0 abstract ps c = (Inl RangeError, c)"
| "make (Suc k) abstract ps c =
     (let a = getAlias abstract c in
      if truthy (jsget (instances c) (key a)) then (Inr (jsget (instances c) (key a)), c)
      else
        (case getConcrete a c of
           Inl e \<Rightarrow> (Inl e, c)
         | Inr conc \<Rightarrow>
             (case (if isBuildable conc a then build k conc ps c
                    else make k (as_abstract conc) ps c) of
                (Inl e, c1) \<Rightarrow> (Inl e, c1)
              | (Inr object, c1) \<Rightarrow>
                  (let c2 = (if isShared a c1
                             then c1\<lparr>instances := (instances c1)(key a \<mapsto> object)\<rparr>
                             else c1)
                   in (Inr object, c2\<lparr>resolved := (resolved c2)(key a \<mapsto> True)\<rparr>)))))"
| "build k conc ps c =
     (case autoInject conc c of
        Inl e \<Rightarrow> (Inl e, c)
      | Inr conc1 \<Rightarrow>
          (case parseFunctionArguments conc1 of
             Inl e \<Rightarrow> (Inl e, c)
           | Inr dependencyArguments \<Rightarrow>
               (case getDependencies k dependencyArguments ps c of
                  (Inl e, c1) \<Rightarrow> (Inl e, c1)
                | (Inr insts, c1) \<Rightarrow> instantiateClass conc1 insts c1)))"
| "getDependencies k [] ps c = (Inr [], c)"
| "getDependencies k (dependency # rest) ps c =
     (if jsget ps dependency \<noteq> Undefined then
        (case getDependencies k rest ps c of
           (Inl e, c1) \<Rightarrow> (Inl e, c1)
         | (Inr ds, c1) \<Rightarrow> (Inr (jsget ps dependency # ds), c1))
      else
        (case make k (AStr dependency) Map.empty c of
           (Inl e, c1) \<Rightarrow> (Inl e, c1)
         | (Inr v, c1) \<Rightarrow>
             (case getDependencies k rest ps c1 of
                (Inl e, c2) \<Rightarrow> (Inl e, c2)
              | (Inr ds, c2) \<Rightarrow> (Inr (v # ds), c2))))"
  by pat_completeness auto
termination
  by (relation "measures
        [\<lambda>x. case x of Inl (k, _) \<Rightarrow> k | Inr (Inl (k, _)) \<Rightarrow> k | Inr (Inr (k, _)) \<Rightarrow> k,
         \<lambda>x. case x of Inl _ \<Rightarrow> 0 | Inr (Inl _) \<Rightarrow> 2 | Inr (Inr _) \<Rightarrow> 1,
         \<lambda>x. case x of Inr (Inr (_, ds, _)) \<Rightarrow> length ds | _ \<Rightarrow> 0]") auto

section \<open>Invoker\<close>

text \<open>
  What \<open>call\<close> accepts: a function, a string, or the pair \<open>[instance, method]\<close>.  The
  optional \<open>defaultMethod\<close> is \<open>None\<close> when it is not given.  Only the methods that a
  constructor gives its instances are modelled; the built-in members of strings and
  functions are not.
\<close>

datatype callable = CbFn fn | CbStr string | CbPair val string

text \<open>
  Modelled from the spec: the global helper \<open>exception(kind, message)\<close> that
  \<open>callClass\<close> uses is defined outside the container; it raises an error of the named
  kind with the message.
\<close>

definition exception :: "string \<Rightarrow> string \<Rightarrow> error" where
  "exception kind msg = Exception kind msg"

definition given :: "string option \<Rightarrow> bool" where
  "given m = (case m of None \<Rightarrow> False | Some s \<Rightarrow> s \<noteq> [])"

definition isCallableWithAtSign :: "callable \<Rightarrow> bool" where
  "isCallableWithAtSign callback =
     (case callback of CbStr s \<Rightarrow> CHR ''@'' \<in> set s | other \<Rightarrow> False)"

text \<open>\<open>instance[method]\<close>: the text of the method, if the instance has it.\<close>

definition method_text :: "val \<Rightarrow> string \<Rightarrow> string option" where
  "method_text inst m = (case inst of Obj a f args \<Rightarrow> map_of (methods f) m | other \<Rightarrow> None)"

text \<open>
  A string that reaches \<open>getCallRefrector\<close> has no \<open>@\<close>; its first two characters are
  taken for instance and method, which never yields a function.
\<close>

definition getCallRefrector :: "callable \<Rightarrow> error + string list" where
  "getCallRefrector callback =
     (case callback of
        CbFn f \<Rightarrow> Inr (parse_text (src f))
      | CbPair inst m \<Rightarrow>
          (case method_text inst m of None \<Rightarrow> Inl TypeError | Some t \<Rightarrow> Inr (parse_text t))
      | CbStr s \<Rightarrow> Inl TypeError)"

definition executeCallable :: "callable \<Rightarrow> val list \<Rightarrow> container \<Rightarrow> (error + val) \<times> container" where
  "executeCallable callback dependencies c =
     (case callback of
        CbFn f \<Rightarrow>
          (Inr (Ret (fresh c)),
           c\<lparr>fresh := Suc (fresh c), events := events c @ [CalledFn f dependencies]\<rparr>)
      | CbPair inst m \<Rightarrow>
          (case method_text inst m of
             None \<Rightarrow> (Inl TypeError, c)
           | Some t \<Rightarrow>
               (Inr (Ret (fresh c)),
                c\<lparr>fresh := Suc (fresh c),
                  events := events c @ [CalledMethod inst m dependencies]\<rparr>))
      | CbStr s \<Rightarrow> (Inl TypeError, c))"

text \<open>
  The caller's \<open>parameters\<close> object is mutated by \<open>delete\<close>, so the invoker returns it
  next to the result and the state.
\<close>

definition addDependencyForCallParameter ::
  "nat \<Rightarrow> string \<Rightarrow> parameters \<Rightarrow> val list \<Rightarrow> container
     \<Rightarrow> (error + val list) \<times> parameters \<times> container" where
  "addDependencyForCallParameter k parameter ps dependencies c =
     (if jsget ps parameter \<noteq> Undefined then
        (Inr (dependencies @ [jsget ps parameter]), ps(parameter := None), c)
      else
        (case make k (AStr parameter) ps c of
           (Inl e, c1) \<Rightarrow> (Inl e, ps, c1)
         | (Inr v, c1) \<Rightarrow> (Inr (dependencies @ [v]), ps, c1)))"

fun forEach_parameter ::
  "nat \<Rightarrow> string list \<Rightarrow> parameters \<Rightarrow> val list \<Rightarrow> container
     \<Rightarrow> (error + val list) \<times> parameters \<times> container" where
  "forEach_parameter k [] ps dependencies c = (Inr dependencies, ps, c)"
| "forEach_parameter k (parameter # rest) ps dependencies c =
     (case addDependencyForCallParameter k parameter ps dependencies c of
        (Inl e, ps1, c1) \<Rightarrow> (Inl e, ps1, c1)
      | (Inr ds, ps1, c1) \<Rightarrow> forEach_parameter k rest ps1 ds c1)"

definition getMethodDependencies ::
  "nat \<Rightarrow> callable \<Rightarrow> parameters \<Rightarrow> container \<Rightarrow> (error + val list) \<times> parameters \<times> container" where
  "getMethodDependencies k callback ps c =
     (case getCallRefrector callback of
        Inl e \<Rightarrow> (Inl e, ps, c)
      | Inr names \<Rightarrow> forEach_parameter k names ps [] c)"

text \<open>\<open>target.split('@')\<close>.\<close>

fun split_at :: "string \<Rightarrow> string list" where
  "split_at [] = [[]]"
| "split_at (ch # cs) =
     (if ch = CHR ''@'' then [] # split_at cs
      else (case split_at cs of [] \<Rightarrow> [[ch]] | x # xs \<Rightarrow> (ch # x) # xs))"

definition method_of :: "string list \<Rightarrow> string option \<Rightarrow> string option" where
  "method_of segments defaultMethod =
     (if length segments = 2 then Some (segments ! 1) else defaultMethod)"

text \<open>The lines of \<open>call\<close> after the dispatch to \<open>callClass\<close>.\<close>

definition call_plain ::
  "nat \<Rightarrow> callable \<Rightarrow> parameters \<Rightarrow> container \<Rightarrow> (error + val) \<times> parameters \<times> container" where
  "call_plain k callback ps c =
     (case getMethodDependencies k callback ps c of
        (Inl e, ps1, c1) \<Rightarrow> (Inl e, ps1, c1)
      | (Inr dependencies, ps1, c1) \<Rightarrow>
          (case executeCallable callback dependencies c1 of (r, c2) \<Rightarrow> (r, ps1, c2)))"

text \<open>
  \<open>callClass\<close> calls \<open>call\<close> on a pair and without a default method, which goes to the
  plain lines of \<open>call\<close>; a target that is not a string has no \<open>split\<close>.
\<close>

definition callClass ::
  "nat \<Rightarrow> callable \<Rightarrow> parameters \<Rightarrow> string option \<Rightarrow> container
     \<Rightarrow> (error + val) \<times> parameters \<times> container" where
  "callClass k target ps defaultMethod c =
     (case target of
        CbStr s \<Rightarrow>
          (let segments = split_at s; method = method_of segments defaultMethod in
           if \<not> given method then
             (Inl (exception ''InvalidArgumentException'' ''Method is not provided.''), ps, c)
           else
             (case make k (AStr (hd segments)) ps c of
                (Inl e, c1) \<Rightarrow> (Inl e, ps, c1)
              | (Inr inst, c1) \<Rightarrow>
                  (case method of
                     Some m \<Rightarrow> call_plain k (CbPair inst m) ps c1
                   | None \<Rightarrow> (Inl TypeError, ps, c1))))
      | other \<Rightarrow> (Inl TypeError, ps, c))"

definition call ::
  "nat \<Rightarrow> callable \<Rightarrow> parameters \<Rightarrow> string option \<Rightarrow> container
     \<Rightarrow> (error + val) \<times> parameters \<times> container" where
  "call k callback ps defaultMethod c =
     (if isCallableWithAtSign callback \<or> given defaultMethod
      then callClass k callback ps defaultMethod c
      else call_plain k callback ps c)"

section \<open>Test scaffolding\<close>

text \<open>The state that the constructor leaves: four empty registries.\<close>

definition new_container :: "(string \<rightharpoonup> fn) \<Rightarrow> container" where
  "new_container mods =
     \<lparr>bindings = Map.empty, instances = Map.empty, resolved = Map.empty,
      aliases = Map.empty, modules = mods, fresh = 0, events = []\<rparr>"

text \<open>A run of \<open>make\<close> calls on one abstract, one parameter map per call.\<close>

fun make_many ::
  "nat \<Rightarrow> abstract \<Rightarrow> parameters list \<Rightarrow> container \<Rightarrow> (error + val) list \<times> container" where
  "make_many k a [] c = ([], c)"
| "make_many k a (ps # pss) c =
     (case make k a ps c of
        (r, c1) \<Rightarrow> (case make_many k a pss c1 of (rs, c2) \<Rightarrow> (r # rs, c2)))"

text \<open>The last lines of \<open>make\<close>: cache the object of a shared abstract, mark it resolved.\<close>

definition cache_and_mark ::
  "abstract \<Rightarrow> (error + val) \<times> container \<Rightarrow> (error + val) \<times> container" where
  "cache_and_mark a rc =
     (case rc of
        (Inl e, c1) \<Rightarrow> (Inl e, c1)
      | (Inr object, c1) \<Rightarrow>
          (let c2 = (if isShared a c1
                     then c1\<lparr>instances := (instances c1)(key a \<mapsto> object)\<rparr>
                     else c1)
           in (Inr object, c2\<lparr>resolved := (resolved c2)(key a \<mapsto> True)\<rparr>)))"

text \<open>
  A target of the shape \<open>Class@method\<close>: exactly one \<open>@\<close>, and a method segment after
  it that is not empty.
\<close>

definition class_at_method :: "string \<Rightarrow> bool" where
  "class_at_method s =
     (length (filter (\<lambda>ch. ch = CHR ''@'') s) = 1 \<and> s \<noteq> [] \<and> last s \<noteq> CHR ''@'')"

text \<open>Constructors used in the examples: the fixtures of the test suite.\<close>

definition HasherInstance :: fn where
  "HasherInstance = Fn 1 ''function HasherInstance() { }'' [(''make'', ''function () { }'')]"

definition ConfigInstance :: fn where
  "ConfigInstance = Fn 2 ''function ConfigInstance() { }'' [(''grab'', ''function () { }'')]"

definition StarInstance :: fn where
  "StarInstance = Fn 3 ''function StarInstance(config) { }'' [(''config'', ''function () { }'')]"

definition Greeter :: fn where
  "Greeter = Fn 4 ''function (title, foo) { }'' [(''sayHello'', ''function (id, newfoo) { }'')]"


definition Closure :: fn where
  "Closure = Fn 6 ''function (id, foobar, barfoo) { }'' []"

text \<open>A name with no binding, no cached instance and no alias entry.\<close>

definition unregistered :: "string \<Rightarrow> container \<Rightarrow> bool" where
  "unregistered m c = (bindings c m = None \<and> instances c m = None \<and> aliases c m = None)"

text \<open>
  A parameter map after the entries that are defined for one of the given names have
  been deleted.
\<close>

definition consumed :: "string list \<Rightarrow> parameters \<Rightarrow> parameters" where
  "consumed names ps = (\<lambda>p. if p \<in> set names \<and> jsget ps p \<noteq> Undefined then None else ps p)"

text \<open>Two states agree on what \<open>make\<close> never writes.\<close>

definition same_registry :: "container \<Rightarrow> container \<Rightarrow> bool" where
  "same_registry c c' =
     (bindings c' = bindings c \<and> aliases c' = aliases c \<and> modules c' = modules c)"

text \<open>Truthy cached instances of the first state are still there in the second.\<close>

definition keeps_cached :: "container \<Rightarrow> container \<Rightarrow> bool" where
  "keeps_cached c c' = (\<forall>n v. instances c n = Some v \<longrightarrow> truthy v \<longrightarrow> instances c' n = Some v)"

text \<open>
  The operations of the container's interface, as a program runs them one after the
  other; \<open>make\<close> and \<open>call\<close> carry the stack depth they may use, and their results
  are dropped.
\<close>

datatype op =
    OpBind string concrete val
  | OpBindIf string concrete val
  | OpSingleton string concrete
  | OpAlias string string
  | OpInstance string val
  | OpForgetInstance string
  | OpForgotAll
  | OpMake nat abstract parameters
  | OpCall nat callable parameters "string option"

fun run_op :: "op \<Rightarrow> container \<Rightarrow> container" where
  "run_op (OpBind m conc s) c = bind m conc s c"
| "run_op (OpBindIf m conc s) c = bindIf m conc s c"
| "run_op (OpSingleton m conc) c = singleton m conc c"
| "run_op (OpAlias m a) c = alias_reg m a c"
| "run_op (OpInstance m v) c = instance_reg m v c"
| "run_op (OpForgetInstance m) c = forgetInstance m c"
| "run_op OpForgotAll c = forgotAll c"
| "run_op (OpMake k a ps) c = snd (make k a ps c)"
| "run_op (OpCall k cb ps dm) c = snd (snd (call k cb ps dm c))"

fun run_ops :: "op list \<Rightarrow> container \<Rightarrow> container" where
  "run_ops [] c = c"
| "run_ops (x # xs) c = run_ops xs (run_op x c)"

text \<open>
  The operations after which a cached singleton of \<open>n\<close> is no longer what \<open>make(n)\<close>
  returns: a re-bind of \<open>n\<close>, \<open>forgetInstance(n)\<close>, \<open>forgotAll()\<close>, an instance registered
  under \<open>n\<close>, an alias registered under the name \<open>n\<close>.
\<close>

fun ends_law :: "string \<Rightarrow> op \<Rightarrow> bool" where
  "ends_law n (OpBind m conc s) = (m = n)"
| "ends_law n (OpBindIf m conc s) = False"
| "ends_law n (OpSingleton m conc) = (m = n)"
| "ends_law n (OpAlias m a) = (a = n)"
| "ends_law n (OpInstance m v) = (m = n)"
| "ends_law n (OpForgetInstance m) = (m = n)"
| "ends_law n OpForgotAll = True"
| "ends_law n (OpMake k a ps) = False"
| "ends_law n (OpCall k cb ps dm) = False"

text \<open>The name is not redirected and has the truthy value in the cache.\<close>

definition cached_as :: "string \<Rightarrow> val \<Rightarrow> container \<Rightarrow> bool" where
  "cached_as n v c = (getAlias (AStr n) c = AStr n \<and> instances c n = Some v \<and> truthy v)"

text \<open>What \<open>make\<close> and \<open>call\<close> guarantee between the state before and the state after.\<close>

definition settled :: "container \<Rightarrow> container \<Rightarrow> bool" where
  "settled c c' = (same_registry c c' \<and> keeps_cached c c')"

definition between_ops :: "op list" where
  "between_ops =
     [OpBind ''config'' (CFun ConfigInstance) Undefined,
      OpMake 2 (AStr ''config'') Map.empty,
      OpInstance ''foo'' (Str ''bar''),
      OpAlias ''config'' ''cfg'',
      OpMake 1 (AStr ''singleton'') Map.empty]"

section \<open>Frame and shape of the resolver\<close>

lemma same_registry_refl [simp]: "same_registry c c"
  by (simp add: same_registry_def)

lemma same_registry_trans:
  "same_registry c c1 \<Longrightarrow> same_registry c1 c2 \<Longrightarrow> same_registry c c2"
  by (simp add: same_registry_def)

lemma same_registry_upd [simp]:
  "same_registry c (c1\<lparr>instances := i\<rparr>) = same_registry c c1"
  "same_registry c (c1\<lparr>resolved := r\<rparr>) = same_registry c c1"
  "same_registry c (c1\<lparr>fresh := n\<rparr>) = same_registry c c1"
  "same_registry c (c1\<lparr>events := e\<rparr>) = same_registry c c1"
  by (simp_all add: same_registry_def)

lemma instantiateClass_registry:
  "instantiateClass conc insts c = (r, c') \<Longrightarrow> same_registry c c'"
  by (auto simp: instantiateClass_def split: concrete.splits)

lemma registry_frame:
  "(\<forall>r c'. make k a ps c = (r, c') \<longrightarrow> same_registry c c')"
  "(\<forall>r c'. build k conc ps c = (r, c') \<longrightarrow> same_registry c c')"
  "(\<forall>r c'. getDependencies k ds ps c = (r, c') \<longrightarrow> same_registry c c')"
proof (induction k a ps c and k conc ps c and k ds ps c rule: make_build_getDependencies.induct)
  case (1 abstract ps c)
  then show ?case by simp
next
  case (2 k abstract ps c)
  show ?case
    using 2 by (auto simp: Let_def split: sum.splits prod.splits if_splits)
next
  case (3 k conc ps c)
  show ?case
    using 3 by (auto simp: Let_def split: sum.splits prod.splits if_splits)
      (blast dest: instantiateClass_registry intro: same_registry_trans)
next
  case (4 k ps c)
  then show ?case by simp
next
  case (5 k dependency rest ps c)
  show ?case
    using 5 by (auto simp: Let_def split: sum.splits prod.splits if_splits)
      (blast intro: same_registry_trans)+
qed

lemma make_registry: "make k a ps c = (r, c') \<Longrightarrow> same_registry c c'"
  using registry_frame(1) by blast

lemma build_registry: "build k conc ps c = (r, c') \<Longrightarrow> same_registry c c'"
  using registry_frame(2) by blast

lemma instantiateClass_truthy: "instantiateClass conc insts c = (Inr v, c') \<Longrightarrow> truthy v"
  by (auto simp: instantiateClass_def split: concrete.splits)

lemma result_shape:
  "(\<forall>v c'. make k a ps c = (Inr v, c') \<longrightarrow> truthy v)"
  "(\<forall>v c'. build k conc ps c = (Inr v, c') \<longrightarrow> truthy v)"
  "(\<forall>vs c'. getDependencies k ds ps c = (Inr vs, c') \<longrightarrow> length vs = length ds)"
proof (induction k a ps c and k conc ps c and k ds ps c rule: make_build_getDependencies.induct)
  case (1 abstract ps c)
  then show ?case by simp
next
  case (2 k abstract ps c)
  show ?case
  proof (intro allI impI)
    fix v c'
    assume m: "make (Suc k) abstract ps c = (Inr v, c')"
    define a where "a = getAlias abstract c"
    show "truthy v"
    proof (cases "truthy (jsget (instances c) (key a))")
      case True
      with m show ?thesis by (auto simp add: Let_def a_def)
    next
      case False
      then obtain conc where gc: "getConcrete a c = Inr conc"
        using m by (cases "getConcrete a c") (simp_all add: Let_def a_def)
      show ?thesis
      proof (cases "isBuildable conc a")
        case True
        obtain r c1 where b: "build k conc ps c = (r, c1)" by (cases "build k conc ps c")
        with m False gc True have "r = Inr v"
          by (cases r) (simp_all add: Let_def a_def)
        with b "2.IH"(1)[OF a_def False gc True] show ?thesis by blast
      next
        case nb: False
        obtain r c1 where b: "make k (as_abstract conc) ps c = (r, c1)"
          by (cases "make k (as_abstract conc) ps c")
        with m False gc nb have "r = Inr v"
          by (cases r) (simp_all add: Let_def a_def)
        with b "2.IH"(2)[OF a_def False gc nb] show ?thesis by blast
      qed
    qed
  qed
next
  case (3 k conc ps c)
  show ?case
    using 3 by (auto simp: Let_def split: sum.splits prod.splits dest: instantiateClass_truthy)
next
  case (4 k ps c)
  show ?case by simp
next
  case (5 k dependency rest ps c)
  show ?case using 5 by (auto split: sum.splits prod.splits if_splits)
qed

lemma make_truthy: "make k a ps c = (Inr v, c') \<Longrightarrow> truthy v"
  using result_shape(1) by blast


lemma make_Suc:
  "make (Suc k) abstract ps c =
     (let a = getAlias abstract c in
      if truthy (jsget (instances c) (key a)) then (Inr (jsget (instances c) (key a)), c)
      else
        (case getConcrete a c of
           Inl e \<Rightarrow> (Inl e, c)
         | Inr conc \<Rightarrow>
             cache_and_mark a
               (if isBuildable conc a then build k conc ps c
                else make k (as_abstract conc) ps c)))"
  by (simp add: cache_and_mark_def Let_def split: sum.splits)

declare make.simps(2) [simp del]
declare build.simps [simp del]

lemma cache_and_mark_Inl [simp]: "cache_and_mark a (Inl e, c) = (Inl e, c)"
  by (simp add: cache_and_mark_def)

lemma cache_and_mark_Inr:
  "cache_and_mark a (Inr v, c) =
     (Inr v,
      (if isShared a c then c\<lparr>instances := (instances c)(key a \<mapsto> v)\<rparr> else c)
        \<lparr>resolved := (resolved c)(key a \<mapsto> True)\<rparr>)"
  by (simp add: cache_and_mark_def Let_def)

lemma cache_and_mark_result:
  "cache_and_mark a rc = (Inr v, c') \<Longrightarrow> \<exists>c1. rc = (Inr v, c1)"
  by (cases rc; cases "fst rc") (auto simp: cache_and_mark_def Let_def)

lemma make_cached:
  assumes "getAlias a c = a'" and "instances c (key a') = Some v" and "truthy v"
  shows "make (Suc k) a ps c = (Inr v, c)"
  using assms by (simp add: make_Suc Let_def jsget_def)

section \<open>What the resolver and the invoker leave in place\<close>

lemma keeps_cached_refl [simp]: "keeps_cached c c"
  by (simp add: keeps_cached_def)

lemma keeps_cached_trans: "keeps_cached c c1 \<Longrightarrow> keeps_cached c1 c2 \<Longrightarrow> keeps_cached c c2"
  by (simp add: keeps_cached_def)

lemma keeps_cached_upd [simp]:
  "keeps_cached c (c1\<lparr>resolved := r\<rparr>) = keeps_cached c c1"
  "keeps_cached c (c1\<lparr>fresh := n\<rparr>) = keeps_cached c c1"
  "keeps_cached c (c1\<lparr>events := e\<rparr>) = keeps_cached c c1"
  by (simp_all add: keeps_cached_def)

lemma instantiateClass_keeps: "instantiateClass conc insts c = (r, c') \<Longrightarrow> keeps_cached c c'"
  by (auto simp: instantiateClass_def split: concrete.splits)

lemma cache_and_mark_keeps:
  assumes "\<not> truthy (jsget (instances c) (key a))" and "keeps_cached c c1"
    and "cache_and_mark a (r, c1) = (r', c')"
  shows "keeps_cached c c'"
proof (cases r)
  case (Inl e)
  with assms show ?thesis by simp
next
  case (Inr obj)
  have "instances c' n = Some v" if "instances c n = Some v" "truthy v" for n v
  proof -
    have "n \<noteq> key a" using that assms(1) by (auto simp: jsget_def)
    moreover have "instances c1 n = Some v" using that assms(2) by (simp add: keeps_cached_def)
    ultimately show ?thesis
      using assms(3) Inr by (auto simp: cache_and_mark_Inr split: if_splits)
  qed
  then show ?thesis by (simp add: keeps_cached_def)
qed

lemma cached_frame:
  "(\<forall>r c'. make k a ps c = (r, c') \<longrightarrow> keeps_cached c c')"
  "(\<forall>r c'. build k conc ps c = (r, c') \<longrightarrow> keeps_cached c c')"
  "(\<forall>r c'. getDependencies k ds ps c = (r, c') \<longrightarrow> keeps_cached c c')"
proof (induction k a ps c and k conc ps c and k ds ps c rule: make_build_getDependencies.induct)
  case (1 abstract ps c)
  then show ?case by simp
next
  case (2 k abstract ps c)
  show ?case
  proof (intro allI impI)
    fix r c'
    assume m: "make (Suc k) abstract ps c = (r, c')"
    define a where "a = getAlias abstract c"
    show "keeps_cached c c'"
    proof (cases "truthy (jsget (instances c) (key a))")
      case True
      with m show ?thesis by (auto simp: make_Suc Let_def a_def)
    next
      case nt: False
      show ?thesis
      proof (cases "getConcrete a c")
        case (Inl e)
        with m nt show ?thesis by (auto simp: make_Suc Let_def a_def)
      next
        case (Inr conc)
        define inner where "inner = (if isBuildable conc a then build k conc ps c
                                     else make k (as_abstract conc) ps c)"
        obtain r1 c1 where i: "inner = (r1, c1)" by (cases inner)
        have k1: "keeps_cached c c1"
        proof (cases "isBuildable conc a")
          case True
          with i "2.IH"(1)[OF a_def nt Inr True] show ?thesis by (simp add: inner_def)
        next
          case False
          with i "2.IH"(2)[OF a_def nt Inr False] show ?thesis by (simp add: inner_def)
        qed
        have "cache_and_mark a (r1, c1) = (r, c')"
          using m nt Inr i by (simp add: make_Suc Let_def a_def[symmetric] inner_def[symmetric])
        with nt k1 show ?thesis by (rule cache_and_mark_keeps)
      qed
    qed
  qed
next
  case (3 k conc ps c)
  show ?case
    using 3 by (auto simp: build.simps split: sum.splits prod.splits)
      (blast dest: instantiateClass_keeps intro: keeps_cached_trans)
next
  case (4 k ps c)
  then show ?case by simp
next
  case (5 k dependency rest ps c)
  show ?case
    using 5 by (auto split: sum.splits prod.splits if_splits)
      (blast intro: keeps_cached_trans)+
qed

lemma make_keeps: "make k a ps c = (r, c') \<Longrightarrow> keeps_cached c c'"
  using cached_frame(1) by blast

lemma settled_refl [simp]: "settled c c"
  by (simp add: settled_def)

lemma settled_trans: "settled c c1 \<Longrightarrow> settled c1 c2 \<Longrightarrow> settled c c2"
  unfolding settled_def by (blast intro: same_registry_trans keeps_cached_trans)

lemma make_settled: "make k a ps c = (r, c') \<Longrightarrow> settled c c'"
  by (simp add: settled_def make_registry make_keeps)

lemma executeCallable_settled: "executeCallable cb ds c = (r, c') \<Longrightarrow> settled c c'"
  by (auto simp: executeCallable_def settled_def split: callable.splits option.splits)

lemma addDependency_settled:
  "addDependencyForCallParameter k p ps ds c = (r, ps', c') \<Longrightarrow> settled c c'"
  by (auto simp: addDependencyForCallParameter_def split: if_splits prod.splits sum.splits
           dest: make_settled)

lemma forEach_parameter_settled:
  "forEach_parameter k names ps ds c = (r, ps', c') \<Longrightarrow> settled c c'"
proof (induction names arbitrary: ps ds c)
  case Nil
  then show ?case by simp
next
  case (Cons p rest)
  obtain r1 ps1 c1 where a: "addDependencyForCallParameter k p ps ds c = (r1, ps1, c1)"
    by (cases "addDependencyForCallParameter k p ps ds c")
  then have s1: "settled c c1" by (rule addDependency_settled)
  show ?case
  proof (cases r1)
    case (Inl e)
    with Cons.prems a s1 show ?thesis by simp
  next
    case (Inr ds1)
    with Cons.prems a have "forEach_parameter k rest ps1 ds1 c1 = (r, ps', c')" by simp
    then have "settled c1 c'" by (rule Cons.IH)
    with s1 show ?thesis by (rule settled_trans)
  qed
qed

lemma call_plain_settled: "call_plain k cb ps c = (r, ps', c') \<Longrightarrow> settled c c'"
proof -
  assume cp: "call_plain k cb ps c = (r, ps', c')"
  obtain d ps1 c1 where g: "getMethodDependencies k cb ps c = (d, ps1, c1)"
    by (cases "getMethodDependencies k cb ps c")
  have s1: "settled c c1"
    using g by (auto simp: getMethodDependencies_def split: sum.splits dest: forEach_parameter_settled)
  show "settled c c'"
  proof (cases d)
    case (Inl e)
    with cp g s1 show ?thesis by (simp add: call_plain_def)
  next
    case (Inr ds)
    obtain r2 c2 where e: "executeCallable cb ds c1 = (r2, c2)" by (cases "executeCallable cb ds c1")
    with cp g Inr have "c' = c2" by (simp add: call_plain_def)
    with e s1 show ?thesis by (blast intro: settled_trans dest: executeCallable_settled)
  qed
qed

lemma callClass_settled: "callClass k cb ps dm c = (r, ps', c') \<Longrightarrow> settled c c'"
proof -
  assume cc: "callClass k cb ps dm c = (r, ps', c')"
  show "settled c c'"
  proof (cases cb)
    case (CbStr s)
    show ?thesis
    proof (cases "given (method_of (split_at s) dm)")
      case False
      with cc CbStr show ?thesis by (simp add: callClass_def Let_def)
    next
      case True
      obtain r1 c1 where m: "make k (AStr (hd (split_at s))) ps c = (r1, c1)"
        by (cases "make k (AStr (hd (split_at s))) ps c")
      then have s1: "settled c c1" by (rule make_settled)
      show ?thesis
      proof (cases r1)
        case (Inl e)
        with cc CbStr True m s1 show ?thesis by (simp add: callClass_def Let_def)
      next
        case (Inr inst)
        show ?thesis
        proof (cases "method_of (split_at s) dm")
          case None
          with cc CbStr True m Inr s1 show ?thesis by (simp add: callClass_def Let_def)
        next
          case (Some meth)
          with cc CbStr True m Inr have "call_plain k (CbPair inst meth) ps c1 = (r, ps', c')"
            by (simp add: callClass_def Let_def)
          then have "settled c1 c'" by (rule call_plain_settled)
          with s1 show ?thesis by (rule settled_trans)
        qed
      qed
    qed
  next
    case (CbFn f)
    with cc show ?thesis by (simp add: callClass_def)
  next
    case (CbPair i m)
    with cc show ?thesis by (simp add: callClass_def)
  qed
qed

lemma call_settled: "call k cb ps dm c = (r, ps', c') \<Longrightarrow> settled c c'"
  by (auto simp: call_def split: if_splits dest: callClass_settled call_plain_settled)

lemma settled_cached_as:
  assumes "settled c c'" and "cached_as n v c"
  shows "cached_as n v c'"
proof -
  have sr: "same_registry c c'" and kc: "keeps_cached c c'"
    using assms(1) by (simp_all add: settled_def)
  have al: "aliases c' = aliases c"
    using sr by (simp add: same_registry_def)
  have ga: "getAlias (AStr n) c' = getAlias (AStr n) c"
    by (simp add: getAlias_def al)
  have g: "getAlias (AStr n) c = AStr n" and i: "instances c n = Some v" and t: "truthy v"
    using assms(2) by (simp_all add: cached_as_def)
  have i': "instances c' n = Some v"
    by (rule kc[unfolded keeps_cached_def, rule_format, OF i t])
  show ?thesis
    unfolding cached_as_def
  proof (intro conjI)
    show "getAlias (AStr n) c' = AStr n" by (rule trans[OF ga g])
    show "instances c' n = Some v" by (rule i')
    show "truthy v" by (rule t)
  qed
qed

lemma cached_as_bound: "cached_as n v c \<Longrightarrow> bound n c"
  by (simp add: cached_as_def bound_def jsget_def)

lemma getAlias_same_entry:
  "aliases c' (key a) = aliases c (key a) \<Longrightarrow> getAlias a c' = getAlias a c"
  by (simp add: getAlias_def)

lemma cached_as_transfer:
  assumes ca: "cached_as n v c"
    and al: "aliases c' n = aliases c n"
    and ins: "instances c' n = instances c n"
  shows "cached_as n v c'"
proof -
  have g: "getAlias (AStr n) c = AStr n" and i: "instances c n = Some v" and t: "truthy v"
    using ca by (simp_all add: cached_as_def)
  have ga: "getAlias (AStr n) c' = getAlias (AStr n) c"
    by (rule getAlias_same_entry) (simp add: al)
  show ?thesis
    unfolding cached_as_def
  proof (intro conjI)
    show "getAlias (AStr n) c' = AStr n" by (rule trans[OF ga g])
    show "instances c' n = Some v" by (rule trans[OF ins i])
    show "truthy v" by (rule t)
  qed
qed

lemma bind_other:
  "m \<noteq> n \<Longrightarrow> aliases (bind m conc s c) n = aliases c n \<and>
                 instances (bind m conc s c) n = instances c n"
  by (simp add: bind_def dropStaleInstances_def Let_def)

lemma run_op_cached_as:
  assumes ca: "cached_as n v c" and ne: "\<not> ends_law n x"
  shows "cached_as n v (run_op x c)"
proof (cases x)
  case (OpBind m conc s)
  with ne have "m \<noteq> n" by simp
  from bind_other[OF this] show ?thesis
    unfolding OpBind run_op.simps by (intro cached_as_transfer[OF ca]) blast+
next
  case (OpBindIf m conc s)
  show ?thesis
  proof (cases "bound m c")
    case True
    then have "bindIf m conc s c = c" by (simp add: bindIf_def)
    with ca show ?thesis unfolding OpBindIf run_op.simps by simp
  next
    case False
    with ca have "m \<noteq> n" using cached_as_bound by blast
    from False have b: "bindIf m conc s c = bind m conc s c" by (simp add: bindIf_def)
    from bind_other[OF \<open>m \<noteq> n\<close>] show ?thesis
      unfolding OpBindIf run_op.simps b by (intro cached_as_transfer[OF ca]) blast+
  qed
next
  case (OpSingleton m conc)
  with ne have "m \<noteq> n" by simp
  from bind_other[OF this] show ?thesis
    unfolding OpSingleton run_op.simps singleton_def by (intro cached_as_transfer[OF ca]) blast+
next
  case (OpAlias m a)
  with ne have "a \<noteq> n" by simp
  then have "aliases (alias_reg m a c) n = aliases c n" "instances (alias_reg m a c) n = instances c n"
    by (simp_all add: alias_reg_def)
  then show ?thesis
    unfolding OpAlias run_op.simps by (rule cached_as_transfer[OF ca])
next
  case (OpInstance m w)
  with ne have "m \<noteq> n" by simp
  then have "aliases (instance_reg m w c) n = aliases c n"
    "instances (instance_reg m w c) n = instances c n"
    by (simp_all add: instance_reg_def)
  then show ?thesis
    unfolding OpInstance run_op.simps by (rule cached_as_transfer[OF ca])
next
  case (OpForgetInstance m)
  with ne have "m \<noteq> n" by simp
  then have "aliases (forgetInstance m c) n = aliases c n"
    "instances (forgetInstance m c) n = instances c n"
    by (simp_all add: forgetInstance_def)
  then show ?thesis
    unfolding OpForgetInstance run_op.simps by (rule cached_as_transfer[OF ca])
next
  case OpForgotAll
  with ne show ?thesis by simp
next
  case (OpMake k a ps)
  have "settled c (snd (make k a ps c))"
    by (rule make_settled[of k a ps c "fst (make k a ps c)"]) simp
  then show ?thesis
    unfolding OpMake run_op.simps using ca by (rule settled_cached_as)
next
  case (OpCall k cb ps dm)
  have "settled c (snd (snd (call k cb ps dm c)))"
    by (rule call_settled[of k cb ps dm c "fst (call k cb ps dm c)" "fst (snd (call k cb ps dm c))"])
       simp
  then show ?thesis
    unfolding OpCall run_op.simps using ca by (rule settled_cached_as)
qed

lemma run_ops_cached_as:
  "cached_as n v c \<Longrightarrow> \<not> list_ex (ends_law n) ops \<Longrightarrow> cached_as n v (run_ops ops c)"
proof (induction ops arbitrary: c)
  case Nil
  then show ?case by simp
next
  case (Cons x xs)
  from Cons.prems(2) have x: "\<not> ends_law n x" and xs: "\<not> list_ex (ends_law n) xs"
    by simp_all
  have "cached_as n v (run_op x c)"
    using Cons.prems(1) x by (rule run_op_cached_as)
  then have "cached_as n v (run_ops xs (run_op x c))"
    using xs by (rule Cons.IH)
  then show ?case by simp
qed

lemma cached_as_make:
  assumes "cached_as n v c"
  shows "make (Suc j) (AStr n) ps c = (Inr v, c)"
proof -
  have g: "getAlias (AStr n) c = AStr n" and i: "instances c (key (AStr n)) = Some v" and t: "truthy v"
    using assms by (simp_all add: cached_as_def)
  show ?thesis by (rule make_cached[OF g i t])
qed

lemmas eval_defs = make_Suc build.simps Let_def jsget_def getAlias_def getConcrete_def
  bind_def dropStaleInstances_def instance_reg_def new_container_def singleton_def
  alias_reg_def forgetInstance_def bindIf_def bound_def isAlias_def
  isShared_def plus_prefixed_def autoInject_def needAutoInject_def require_def
  parseFunctionArguments_def parse_text_def match_here_def is_space_def is_line_end_def
  instantiateClass_def cache_and_mark_def

section \<open>Instances\<close>

text \<open>A truthy value registered with \<open>instance\<close> is what \<open>make\<close> returns, with no other effect.\<close>

lemma instance_override_truthy:
  "truthy v \<Longrightarrow> make (Suc k) (AStr n) ps (instance_reg n v c) = (Inr v, instance_reg n v c)"
  by (rule make_cached[where a' = "AStr n"]) (simp_all add: getAlias_def instance_reg_def)

text \<open>
  C1 (instance override law).  The law asks that after \<open>instance(n, v)\<close> the next
  \<open>make(n)\<close> returns \<open>v\<close> for every value \<open>v\<close>, also when \<open>n\<close> was bound before.  The
  cache test of \<open>make\<close> is a truthiness test: with \<open>bind('n', HasherInstance)\<close> followed by
  \<open>instance('n', false)\<close>, \<open>make('n')\<close> does not return \<open>false\<close> but constructs a
  \<open>HasherInstance\<close>.
\<close>

theorem instance_override_falsy:
  "fst (make 2 (AStr ''n'') Map.empty
        (instance_reg ''n'' (Bool False)
           (bind ''n'' (CFun HasherInstance) Undefined (new_container Map.empty)))) =
   Inr (Obj 0 HasherInstance [])"
  by (simp add: eval_defs HasherInstance_def numeral_2_eq_2)

section \<open>Singletons\<close>

text \<open>
  C2 (singleton law, amended).  Let \<open>n\<close> be a name that the alias table does not
  redirect.  After \<open>singleton(n, C)\<close>, once a \<open>make(n)\<close> has returned an object, every
  later \<open>make(n)\<close> returns that same object (same address) and leaves the state unchanged:
  in any run of \<open>make(n)\<close> calls, and after any run of other operations of the container
  none of which is a re-bind of \<open>n\<close>, \<open>forgetInstance(n)\<close>, \<open>forgotAll()\<close>, an instance
  registered under \<open>n\<close> or an alias registered under the name \<open>n\<close>.  After
  \<open>forgetInstance(n)\<close> or \<open>bind(n, ...)\<close> the cached object is gone.
\<close>

theorem singleton_law:
  assumes na: "getAlias (AStr n) c = AStr n"
    and m: "make k (AStr n) ps (singleton n conc c) = (Inr v, c1)"
  shows "make_many (Suc j) (AStr n) pss c1 = (replicate (length pss) (Inr v), c1) \<and>
         (\<not> list_ex (ends_law n) ops \<longrightarrow>
            make (Suc j) (AStr n) ps' (run_ops ops c1) = (Inr v, run_ops ops c1)) \<and>
         instances (forgetInstance n c1) n = None \<and>
         instances (bind n conc' s c1) n = None"
proof -
  let ?c0 = "singleton n conc c"
  have al0: "aliases ?c0 = aliases c" and i0: "instances ?c0 n = None"
    and b0: "bindings ?c0 n = Some \<lparr>concrete = conc, shared = True\<rparr>"
    by (simp_all add: singleton_def bind_def dropStaleInstances_def Let_def)
  have ga0: "getAlias (AStr n) ?c0 = AStr n"
    using na al0 by (simp add: getAlias_def)
  obtain k' where k: "k = Suc k'"
    using m by (cases k) simp_all
  have gc: "getConcrete (AStr n) ?c0 = Inr conc"
    using b0 by (simp add: getConcrete_def)
  define inner where "inner = (if isBuildable conc (AStr n) then build k' conc ps ?c0
                    else make k' (as_abstract conc) ps ?c0)"
  have unfold: "make (Suc k') (AStr n) ps ?c0 = cache_and_mark (AStr n) inner"
    using ga0 i0 gc by (simp add: make_Suc Let_def jsget_def inner_def)
  obtain c' where in_eq: "inner = (Inr v, c')"
    using m cache_and_mark_result unfolding k unfold by blast
  have reg: "same_registry ?c0 c'"
    using in_eq unfolding inner_def by (auto split: if_splits dest: build_registry make_registry)
  have tv: "truthy v"
    using m by (rule make_truthy)
  have sh: "isShared (AStr n) c'"
    using reg b0 by (simp add: isShared_def same_registry_def)
  have c1: "c1 = c'\<lparr>instances := (instances c')(n \<mapsto> v), resolved := (resolved c')(n \<mapsto> True)\<rparr>"
    using m sh unfolding k unfold in_eq by (simp add: cache_and_mark_Inr)
  have ga1: "getAlias (AStr n) c1 = AStr n"
    using ga0 reg by (simp add: c1 getAlias_def same_registry_def)
  have i1: "instances c1 n = Some v" by (simp add: c1)
  have ca: "cached_as n v c1"
    unfolding cached_as_def by (intro conjI) (rule ga1 i1 tv)+
  have one: "\<And>ps'. make (Suc j) (AStr n) ps' c1 = (Inr v, c1)"
    using ca by (rule cached_as_make)
  have many: "make_many (Suc j) (AStr n) pss c1 = (replicate (length pss) (Inr v), c1)"
    by (induction pss) (simp_all add: one)
  have later: "make (Suc j) (AStr n) ps' (run_ops ops c1) = (Inr v, run_ops ops c1)"
    if "\<not> list_ex (ends_law n) ops"
    by (rule cached_as_make) (rule run_ops_cached_as[OF ca that])
  have gone: "instances (forgetInstance n c1) n = None" "instances (bind n conc' s c1) n = None"
    by (simp_all add: forgetInstance_def bind_def dropStaleInstances_def Let_def)
  show ?thesis
  proof (intro conjI impI)
    show "make_many (Suc j) (AStr n) pss c1 = (replicate (length pss) (Inr v), c1)" by (rule many)
    show "make (Suc j) (AStr n) ps' (run_ops ops c1) = (Inr v, run_ops ops c1)"
      if "\<not> list_ex (ends_law n) ops" using that by (rule later)
    show "instances (forgetInstance n c1) n = None" by (rule gone(1))
    show "instances (bind n conc' s c1) n = None" by (rule gone(2))
  qed
qed

theorem singleton_law_witness:
  "getAlias (AStr ''singleton'') (new_container Map.empty) = AStr ''singleton'' \<and>
   fst (make 2 (AStr ''singleton'') Map.empty
          (singleton ''singleton'' (CFun HasherInstance) (new_container Map.empty))) =
     Inr (Obj 0 HasherInstance []) \<and>
   make_many 1 (AStr ''singleton'') [Map.empty, Map.empty]
     (snd (make 2 (AStr ''singleton'') Map.empty
             (singleton ''singleton'' (CFun HasherInstance) (new_container Map.empty)))) =
     ([Inr (Obj 0 HasherInstance []), Inr (Obj 0 HasherInstance [])],
      snd (make 2 (AStr ''singleton'') Map.empty
             (singleton ''singleton'' (CFun HasherInstance) (new_container Map.empty)))) \<and>
   \<not> list_ex (ends_law ''singleton'') between_ops \<and>
   fst (make 1 (AStr ''singleton'') Map.empty
     (run_ops between_ops
        (snd (make 2 (AStr ''singleton'') Map.empty
             (singleton ''singleton'' (CFun HasherInstance) (new_container Map.empty))))))
     = Inr (Obj 0 HasherInstance [])"
proof -
  let ?c0 = "singleton ''singleton'' (CFun HasherInstance) (new_container Map.empty)"
  let ?c1 = "snd (make 2 (AStr ''singleton'') Map.empty ?c0)"
  have ga: "getAlias (AStr ''singleton'') (new_container Map.empty) = AStr ''singleton''"
    by (simp add: getAlias_def new_container_def)
  have v: "fst (make 2 (AStr ''singleton'') Map.empty ?c0) = Inr (Obj 0 HasherInstance [])"
    by (simp add: eval_defs HasherInstance_def numeral_2_eq_2)
  then have m: "make 2 (AStr ''singleton'') Map.empty ?c0 = (Inr (Obj 0 HasherInstance []), ?c1)"
    by (simp add: prod_eq_iff)
  have ops: "\<not> list_ex (ends_law ''singleton'') between_ops"
    by (simp add: between_ops_def)
  note t = singleton_law[OF ga m, of 0 "[Map.empty, Map.empty]" between_ops Map.empty
      "CFun ConfigInstance" Undefined]
  have many: "make_many 1 (AStr ''singleton'') [Map.empty, Map.empty] ?c1 =
     ([Inr (Obj 0 HasherInstance []), Inr (Obj 0 HasherInstance [])], ?c1)"
    using t[THEN conjunct1] by simp
  have "make (Suc 0) (AStr ''singleton'') Map.empty (run_ops between_ops ?c1) =
      (Inr (Obj 0 HasherInstance []), run_ops between_ops ?c1)"
    by (rule t[THEN conjunct2, THEN conjunct1, rule_format, OF ops])
  then have later: "fst (make 1 (AStr ''singleton'') Map.empty (run_ops between_ops ?c1))
      = Inr (Obj 0 HasherInstance [])"
    by simp
  show ?thesis
    by (intro conjI) (rule ga v many ops later)+
qed

text \<open>
  Without the condition on the alias table the law fails: with \<open>bind('m', ConfigInstance)\<close>,
  \<open>alias('m', 'n')\<close> and then \<open>singleton('n', HasherInstance)\<close>, \<open>make('n')\<close> resolves the
  alias first and builds the unshared \<open>m\<close>, so two calls return two different objects.
\<close>

theorem singleton_law_counterexample:
  "fst (make_many 2 (AStr ''n'') [Map.empty, Map.empty]
     (singleton ''n'' (CFun HasherInstance)
        (alias_reg ''m'' ''n''
           (bind ''m'' (CFun ConfigInstance) Undefined (new_container Map.empty)))))
   = [Inr (Obj 0 ConfigInstance []), Inr (Obj 1 ConfigInstance [])]"
  by code_simp

section \<open>The invoker's argument check\<close>

lemma split_at_nonempty [simp]: "split_at s \<noteq> []"
  by (induction s) (auto split: list.splits)

lemma split_at_no_at: "CHR ''@'' \<notin> set s \<Longrightarrow> split_at s = [s]"
  by (induction s) auto

lemma split_at_one: "length (split_at s) = Suc 0 \<Longrightarrow> CHR ''@'' \<notin> set s"
  by (induction s) (auto split: list.splits if_splits)

lemma split_at_two:
  "length (split_at s) = 2 \<Longrightarrow>
     \<exists>cls m. s = cls @ CHR ''@'' # m \<and> CHR ''@'' \<notin> set cls \<and> CHR ''@'' \<notin> set m
        \<and> split_at s = [cls, m]"
proof (induction s)
  case Nil
  then show ?case by simp
next
  case (Cons ch cs)
  show ?case
  proof (cases "ch = CHR ''@''")
    case True
    with Cons.prems have "length (split_at cs) = Suc 0" by simp
    then have "CHR ''@'' \<notin> set cs" by (rule split_at_one)
    with True show ?thesis
      by (intro exI[of _ "[]"] exI[of _ cs]) (simp add: split_at_no_at)
  next
    case False
    with Cons.prems have "length (split_at cs) = 2"
      by (auto split: list.splits)
    from Cons.IH[OF this] obtain cls m where
      "cs = cls @ CHR ''@'' # m" "CHR ''@'' \<notin> set cls" "CHR ''@'' \<notin> set m" "split_at cs = [cls, m]"
      by blast
    with False show ?thesis
      by (intro exI[of _ "ch # cls"] exI[of _ m]) simp
  qed
qed

text \<open>
  C4 (callClass error).  When the target string is not of the shape \<open>Class@method\<close> and
  no default method is given, \<open>callClass\<close> fails with the InvalidArgumentException
  "Method is not provided."; the state (hence the record of constructions and
  invocations) and the parameters are untouched.  So does \<open>call\<close> on a string with an
  \<open>@\<close>, which is how such a target reaches \<open>callClass\<close>.
\<close>

theorem callClass_method_not_provided:
  assumes "\<not> class_at_method s" and "\<not> given defaultMethod"
  shows "callClass k (CbStr s) ps defaultMethod c =
           (Inl (Exception ''InvalidArgumentException'' ''Method is not provided.''), ps, c)
         \<and> (CHR ''@'' \<in> set s \<longrightarrow>
              call k (CbStr s) ps defaultMethod c =
                (Inl (Exception ''InvalidArgumentException'' ''Method is not provided.''), ps, c))"
proof -
  have "\<not> given (method_of (split_at s) defaultMethod)"
  proof (cases "length (split_at s) = 2")
    case True
    from split_at_two[OF this] obtain cls m where
      s: "s = cls @ CHR ''@'' # m" "CHR ''@'' \<notin> set cls" "CHR ''@'' \<notin> set m" "split_at s = [cls, m]"
      by blast
    have "filter (\<lambda>ch. ch = CHR ''@'') cls = []" "filter (\<lambda>ch. ch = CHR ''@'') m = []"
      using s(2,3) by (auto simp: filter_empty_conv)
    with assms(1) s(1,3) have "m = []"
      by (cases "m = []") (auto simp: class_at_method_def dest: last_in_set)
    with s True show ?thesis by (simp add: method_of_def given_def)
  next
    case False
    with assms(2) show ?thesis by (simp add: method_of_def)
  qed
  then have cc: "callClass k (CbStr s) ps defaultMethod c =
           (Inl (Exception ''InvalidArgumentException'' ''Method is not provided.''), ps, c)"
    by (simp add: callClass_def Let_def exception_def)
  then show ?thesis
    by (simp add: call_def isCallableWithAtSign_def)
qed

theorem callClass_method_not_provided_witness:
  "\<not> class_at_method ''Greeter@'' \<and> \<not> given None \<and> CHR ''@'' \<in> set ''Greeter@'' \<and>
   call 3 (CbStr ''Greeter@'') Map.empty None
     (bind ''Greeter'' (CFun Greeter) Undefined (new_container Map.empty)) =
     (Inl (Exception ''InvalidArgumentException'' ''Method is not provided.''), Map.empty,
      bind ''Greeter'' (CFun Greeter) Undefined (new_container Map.empty))"
  using callClass_method_not_provided[of "''Greeter@''" None 3 Map.empty
      "bind ''Greeter'' (CFun Greeter) Undefined (new_container Map.empty)"]
  by (simp add: class_at_method_def given_def)

section \<open>Dependency injection\<close>





section \<open>Indirection through a string concrete\<close>

text \<open>
  C5 (indirection).  Let \<open>x\<close> be the name a \<open>make\<close> call resolves to, with no cached
  instance, bound to a string concrete \<open>y\<close> other than \<open>x\<close>.  Then \<open>make\<close> does not
  build: its result is that of the nested \<open>make(y, parameters)\<close>, followed by the caching
  and marking of \<open>x\<close>.  If \<open>y\<close> in turn is bound to a constructor, an object that
  \<open>make(x)\<close> returns was constructed by that constructor.
\<close>

theorem indirection:
  assumes ga: "getAlias abstract c = AStr x"
    and ni: "\<not> truthy (jsget (instances c) x)"
    and b: "bindings c x = Some b"
    and y: "concrete b = CStr y" "y \<noteq> x"
  shows "make (Suc k) abstract ps c = cache_and_mark (AStr x) (make k (AStr y) ps c) \<and>
         (getAlias (AStr y) c = AStr y \<and> \<not> truthy (jsget (instances c) y) \<and>
          bindings c y = Some \<lparr>concrete = CFun f, shared = s\<rparr> \<longrightarrow>
          (\<forall>v c'. make (Suc (Suc k)) abstract ps c = (Inr v, c') \<longrightarrow> (\<exists>a vs. v = Obj a f vs)))"
proof -
  have gc: "getConcrete (AStr x) c = Inr (CStr y)"
    using b y by (simp add: getConcrete_def)
  have step: "\<And>j. make (Suc j) abstract ps c = cache_and_mark (AStr x) (make j (AStr y) ps c)"
    using ga ni gc y by (simp add: make_Suc Let_def)
  have "\<exists>a vs. v = Obj a f vs"
    if yb: "getAlias (AStr y) c = AStr y" "\<not> truthy (jsget (instances c) y)"
      "bindings c y = Some \<lparr>concrete = CFun f, shared = s\<rparr>"
      and m: "make (Suc (Suc k)) abstract ps c = (Inr v, c')" for v c'
  proof -
    have gy: "getConcrete (AStr y) c = Inr (CFun f)"
      using yb(3) by (simp add: getConcrete_def)
    have inner: "make (Suc k) (AStr y) ps c = cache_and_mark (AStr y) (build k (CFun f) ps c)"
      using yb(1,2) gy by (simp add: make_Suc Let_def)
    from m obtain c1 where "make (Suc k) (AStr y) ps c = (Inr v, c1)"
      unfolding step using cache_and_mark_result by blast
    then obtain c2 where bd: "build k (CFun f) ps c = (Inr v, c2)"
      unfolding inner using cache_and_mark_result by blast
    have "autoInject (CFun f) c = Inr (CFun f)"
      by (simp add: autoInject_def needAutoInject_def)
    with bd show ?thesis
      by (auto simp: build.simps parseFunctionArguments_def instantiateClass_def
               split: sum.splits prod.splits)
  qed
  with step show ?thesis by blast
qed

theorem indirection_witness:
  "getAlias (AStr ''x'')
     (bind ''y'' (CFun HasherInstance) Undefined
        (bind ''x'' (CStr ''y'') Undefined (new_container Map.empty))) = AStr ''x'' \<and>
   \<not> truthy (jsget (instances
     (bind ''y'' (CFun HasherInstance) Undefined
        (bind ''x'' (CStr ''y'') Undefined (new_container Map.empty)))) ''x'') \<and>
   bindings
     (bind ''y'' (CFun HasherInstance) Undefined
        (bind ''x'' (CStr ''y'') Undefined (new_container Map.empty))) ''x''
     = Some \<lparr>concrete = CStr ''y'', shared = False\<rparr> \<and>
   ''y'' \<noteq> ''x'' \<and>
   make 3 (AStr ''x'') Map.empty
     (bind ''y'' (CFun HasherInstance) Undefined
        (bind ''x'' (CStr ''y'') Undefined (new_container Map.empty)))
     = cache_and_mark (AStr ''x'') (make 2 (AStr ''y'') Map.empty
         (bind ''y'' (CFun HasherInstance) Undefined
            (bind ''x'' (CStr ''y'') Undefined (new_container Map.empty)))) \<and>
   fst (make 3 (AStr ''x'') Map.empty
     (bind ''y'' (CFun HasherInstance) Undefined
        (bind ''x'' (CStr ''y'') Undefined (new_container Map.empty))))
     = Inr (Obj 0 HasherInstance [])"
proof -
  let ?c = "bind ''y'' (CFun HasherInstance) Undefined
              (bind ''x'' (CStr ''y'') Undefined (new_container Map.empty))"
  have ga: "getAlias (AStr ''x'') ?c = AStr ''x''"
    by (simp add: eval_defs)
  have ni: "\<not> truthy (jsget (instances ?c) ''x'')"
    by (simp add: eval_defs)
  have b: "bindings ?c ''x'' = Some \<lparr>concrete = CStr ''y'', shared = False\<rparr>"
    by (simp add: eval_defs)
  have ne: "''y'' \<noteq> ''x''" by simp
  have v: "fst (make 3 (AStr ''x'') Map.empty ?c) = Inr (Obj 0 HasherInstance [])"
    by (simp add: eval_defs HasherInstance_def numeral_3_eq_3)
  have step: "make 3 (AStr ''x'') Map.empty ?c =
      cache_and_mark (AStr ''x'') (make 2 (AStr ''y'') Map.empty ?c)"
    using indirection[OF ga ni b _ ne, of "Suc (Suc 0)" Map.empty HasherInstance False,
        THEN conjunct1]
    by (simp add: numeral_3_eq_3 numeral_2_eq_2)
  show ?thesis
    by (intro conjI) (rule ga ni b ne step v)+
qed

section \<open>Aliases\<close>

text \<open>
  C6 (one-level aliasing).  After \<open>alias(n, a)\<close> with a non-empty \<open>n\<close>, \<open>getAlias(a)\<close> is
  \<open>n\<close>, whatever the alias table says about \<open>n\<close> itself; \<open>make(a)\<close> goes on with the
  cache entry and the binding of \<open>n\<close>; and when \<open>n\<close> is not redirected by the alias table,
  \<open>make(a)\<close> and \<open>make(n)\<close> are the same computation.
\<close>

theorem one_level_alias:
  assumes n: "n \<noteq> []"
  shows "getAlias (AStr a) (alias_reg n a c) = AStr n \<and>
         make (Suc k) (AStr a) ps (alias_reg n a c) =
           (if truthy (jsget (instances c) n) then (Inr (jsget (instances c) n), alias_reg n a c)
            else
              (case getConcrete (AStr n) c of
                 Inl e \<Rightarrow> (Inl e, alias_reg n a c)
               | Inr conc \<Rightarrow>
                   cache_and_mark (AStr n)
                     (if isBuildable conc (AStr n) then build k conc ps (alias_reg n a c)
                      else make k (as_abstract conc) ps (alias_reg n a c)))) \<and>
         (getAlias (AStr n) (alias_reg n a c) = AStr n \<longrightarrow>
            make (Suc k) (AStr a) ps (alias_reg n a c) = make (Suc k) (AStr n) ps (alias_reg n a c))"
proof -
  let ?c = "alias_reg n a c"
  have ga: "getAlias (AStr a) ?c = AStr n"
    using n by (simp add: getAlias_def alias_reg_def)
  have i: "instances ?c = instances c" and gc: "getConcrete (AStr n) ?c = getConcrete (AStr n) c"
    by (simp_all add: alias_reg_def getConcrete_def)
  have body: "make (Suc k) (AStr a) ps ?c =
           (if truthy (jsget (instances c) n) then (Inr (jsget (instances c) n), ?c)
            else
              (case getConcrete (AStr n) c of
                 Inl e \<Rightarrow> (Inl e, ?c)
               | Inr conc \<Rightarrow>
                   cache_and_mark (AStr n)
                     (if isBuildable conc (AStr n) then build k conc ps ?c
                      else make k (as_abstract conc) ps ?c)))"
    by (simp add: make_Suc[of k "AStr a"] ga i gc Let_def)
  have "make (Suc k) (AStr a) ps ?c = make (Suc k) (AStr n) ps ?c"
    if "getAlias (AStr n) ?c = AStr n"
    using that ga by (simp add: make_Suc[of k "AStr a"] make_Suc[of k "AStr n"])
  with ga body show ?thesis by blast
qed

theorem one_level_alias_witness:
  "''hash'' \<noteq> [] \<and>
   getAlias (AStr ''hasher'')
     (alias_reg ''hash'' ''hasher'' (alias_reg ''third'' ''hash'' (new_container Map.empty)))
     = AStr ''hash'' \<and>
   getAlias (AStr ''hash'')
     (alias_reg ''hash'' ''hasher'' (bind ''hash'' (CFun HasherInstance) Undefined (new_container Map.empty)))
     = AStr ''hash'' \<and>
   make 2 (AStr ''hasher'') Map.empty
     (alias_reg ''hash'' ''hasher'' (bind ''hash'' (CFun HasherInstance) Undefined (new_container Map.empty)))
   = make 2 (AStr ''hash'') Map.empty
     (alias_reg ''hash'' ''hasher'' (bind ''hash'' (CFun HasherInstance) Undefined (new_container Map.empty)))"
proof -
  have n: "''hash'' \<noteq> []" by simp
  have ga: "getAlias (AStr ''hash'')
     (alias_reg ''hash'' ''hasher'' (bind ''hash'' (CFun HasherInstance) Undefined (new_container Map.empty)))
     = AStr ''hash''"
    by (simp add: eval_defs)
  note t1 = one_level_alias[OF n, of "''hasher''"
      "alias_reg ''third'' ''hash'' (new_container Map.empty)" 0 Map.empty, THEN conjunct1]
  note t2 = one_level_alias[OF n, of "''hasher''"
      "bind ''hash'' (CFun HasherInstance) Undefined (new_container Map.empty)" "Suc 0" Map.empty,
      THEN conjunct2, THEN conjunct2, rule_format, OF ga]
  show ?thesis
    unfolding numeral_2_eq_2 using t1 ga t2 by blast
qed

section \<open>Re-binding\<close>

text \<open>
  C7 (rebind eviction, amended).  In every state, \<open>bind(n, c, s)\<close> leaves no cached
  instance under \<open>n\<close>, stores the binding with concrete \<open>c\<close> and the truthiness of \<open>s\<close> as
  its shared flag, and changes nothing else.  For a name that the alias table does not
  redirect, the next \<open>make(n)\<close> is computed from the new concrete.
\<close>

theorem rebind_eviction:
  "instances (bind n conc s c) = (instances c)(n := None) \<and>
   bindings (bind n conc s c) = (bindings c)(n \<mapsto> \<lparr>concrete = conc, shared = truthy s\<rparr>) \<and>
   aliases (bind n conc s c) = aliases c \<and> resolved (bind n conc s c) = resolved c \<and>
   modules (bind n conc s c) = modules c \<and> fresh (bind n conc s c) = fresh c \<and>
   events (bind n conc s c) = events c \<and>
   (getAlias (AStr n) c = AStr n \<longrightarrow>
      make (Suc k) (AStr n) ps (bind n conc s c) =
        cache_and_mark (AStr n)
          (if isBuildable conc (AStr n) then build k conc ps (bind n conc s c)
           else make k (as_abstract conc) ps (bind n conc s c)))"
proof -
  let ?c = "bind n conc s c"
  have st: "instances ?c = (instances c)(n := None)"
    "bindings ?c = (bindings c)(n \<mapsto> \<lparr>concrete = conc, shared = truthy s\<rparr>)"
    "aliases ?c = aliases c" "resolved ?c = resolved c" "modules ?c = modules c"
    "fresh ?c = fresh c" "events ?c = events c"
    by (simp_all add: bind_def dropStaleInstances_def Let_def)
  have "make (Suc k) (AStr n) ps ?c =
        cache_and_mark (AStr n)
          (if isBuildable conc (AStr n) then build k conc ps ?c
           else make k (as_abstract conc) ps ?c)"
    if "getAlias (AStr n) c = AStr n"
  proof -
    have ga: "getAlias (AStr n) ?c = AStr n"
      using that st(3) by (simp add: getAlias_def)
    have gc: "getConcrete (AStr n) ?c = Inr conc"
      using st(2) by (simp add: getConcrete_def)
    show ?thesis
      using ga gc st(1) by (simp add: make_Suc[of k "AStr n"] Let_def jsget_def)
  qed
  with st show ?thesis by blast
qed

theorem rebind_eviction_witness:
  "getAlias (AStr ''s'')
     (snd (make 2 (AStr ''s'') Map.empty
        (singleton ''s'' (CFun HasherInstance) (new_container Map.empty)))) = AStr ''s'' \<and>
   instances
     (snd (make 2 (AStr ''s'') Map.empty
        (singleton ''s'' (CFun HasherInstance) (new_container Map.empty)))) ''s''
     = Some (Obj 0 HasherInstance []) \<and>
   instances (bind ''s'' (CFun ConfigInstance) Undefined
     (snd (make 2 (AStr ''s'') Map.empty
        (singleton ''s'' (CFun HasherInstance) (new_container Map.empty))))) ''s'' = None \<and>
   fst (make 2 (AStr ''s'') Map.empty
     (bind ''s'' (CFun ConfigInstance) Undefined
       (snd (make 2 (AStr ''s'') Map.empty
          (singleton ''s'' (CFun HasherInstance) (new_container Map.empty))))))
     = Inr (Obj 1 ConfigInstance [])"
proof -
  let ?c = "snd (make 2 (AStr ''s'') Map.empty
        (singleton ''s'' (CFun HasherInstance) (new_container Map.empty)))"
  have ga: "getAlias (AStr ''s'') ?c = AStr ''s''"
    by (simp add: eval_defs HasherInstance_def numeral_2_eq_2)
  have i: "instances ?c ''s'' = Some (Obj 0 HasherInstance [])"
    by (simp add: eval_defs HasherInstance_def numeral_2_eq_2)
  have v: "fst (make 2 (AStr ''s'') Map.empty (bind ''s'' (CFun ConfigInstance) Undefined ?c))
     = Inr (Obj 1 ConfigInstance [])"
    by (simp add: eval_defs HasherInstance_def ConfigInstance_def numeral_2_eq_2)
  show ?thesis
    using ga i v rebind_eviction[of "''s''" "CFun ConfigInstance" Undefined ?c 1 Map.empty]
    by simp
qed

text \<open>
  For a name that the alias table redirects, the new binding does not govern the next
  \<open>make\<close>: with \<open>bind('m', ConfigInstance)\<close>, \<open>alias('m', 'n')\<close> and then
  \<open>bind('n', HasherInstance)\<close>, the binding of \<open>n\<close> names \<open>HasherInstance\<close> but \<open>make('n')\<close>
  builds a \<open>ConfigInstance\<close>.
\<close>

theorem rebind_eviction_counterexample:
  "bindings
     (bind ''n'' (CFun HasherInstance) Undefined
        (alias_reg ''m'' ''n''
           (bind ''m'' (CFun ConfigInstance) Undefined (new_container Map.empty)))) ''n''
     = Some \<lparr>concrete = CFun HasherInstance, shared = False\<rparr> \<and>
   fst (make 2 (AStr ''n'') Map.empty
     (bind ''n'' (CFun HasherInstance) Undefined
        (alias_reg ''m'' ''n''
           (bind ''m'' (CFun ConfigInstance) Undefined (new_container Map.empty)))))
   = Inr (Obj 0 ConfigInstance [])"
proof (intro conjI)
  show "bindings
     (bind ''n'' (CFun HasherInstance) Undefined
        (alias_reg ''m'' ''n''
           (bind ''m'' (CFun ConfigInstance) Undefined (new_container Map.empty)))) ''n''
     = Some \<lparr>concrete = CFun HasherInstance, shared = False\<rparr>"
    by (simp add: bind_def dropStaleInstances_def Let_def)
  show "fst (make 2 (AStr ''n'') Map.empty
     (bind ''n'' (CFun HasherInstance) Undefined
        (alias_reg ''m'' ''n''
           (bind ''m'' (CFun ConfigInstance) Undefined (new_container Map.empty)))))
   = Inr (Obj 0 ConfigInstance [])"
    by code_simp
qed

section \<open>Forgetting a name\<close>

text \<open>
  C8 (forgetInstance completeness).  \<open>forgetInstance(n)\<close> removes the binding, the cached
  instance and the alias entry of \<open>n\<close>, so that \<open>n\<close> is unregistered; forgetting a name
  right after binding it in a state where it was unregistered gives that state back.
  When the marker name \<open>+n\<close> is not registered itself, the next \<open>make(n)\<close> goes to the
  external loader with the name \<open>n\<close>, and fails with "module not found" when the loader
  does not know \<open>n\<close>.
\<close>

theorem forget_completeness:
  "bindings (forgetInstance n c) = (bindings c)(n := None) \<and>
   instances (forgetInstance n c) = (instances c)(n := None) \<and>
   aliases (forgetInstance n c) = (aliases c)(n := None) \<and>
   unregistered n (forgetInstance n c) \<and>
   (unregistered n c \<longrightarrow> forgetInstance n (bind n conc s c) = c) \<and>
   (\<not> plus_prefixed n \<and> unregistered (CHR ''+'' # n) c \<longrightarrow>
      autoInject (CStr (CHR ''+'' # n)) (forgetInstance n c) = require n (forgetInstance n c) \<and>
      make (Suc (Suc k)) (AStr n) ps (forgetInstance n c) =
        cache_and_mark (AStr n) (cache_and_mark (AStr (CHR ''+'' # n))
          (build k (CStr (CHR ''+'' # n)) ps (forgetInstance n c))) \<and>
      (modules c n = None \<longrightarrow>
         make (Suc (Suc k)) (AStr n) ps (forgetInstance n c) =
           (Inl (ModuleNotFound n), forgetInstance n c)))"
proof -
  let ?c = "forgetInstance n c"
  let ?m = "CHR ''+'' # n"
  have st: "bindings ?c = (bindings c)(n := None)" "instances ?c = (instances c)(n := None)"
    "aliases ?c = (aliases c)(n := None)" "modules ?c = modules c"
    by (simp_all add: forgetInstance_def)
  have un: "unregistered n ?c"
    by (simp add: unregistered_def st)
  have undo: "forgetInstance n (bind n conc s c) = c" if "unregistered n c"
  proof -
    from that have "(bindings c)(n := None) = bindings c" "(instances c)(n := None) = instances c"
      "(aliases c)(n := None) = aliases c"
      by (auto simp: unregistered_def)
    then show ?thesis
      by (simp add: forgetInstance_def bind_def dropStaleInstances_def Let_def)
  qed
  have load: "autoInject (CStr ?m) ?c = require n ?c \<and>
      make (Suc (Suc k)) (AStr n) ps ?c =
        cache_and_mark (AStr n) (cache_and_mark (AStr ?m) (build k (CStr ?m) ps ?c)) \<and>
      (modules c n = None \<longrightarrow>
         make (Suc (Suc k)) (AStr n) ps ?c = (Inl (ModuleNotFound n), ?c))"
    if np: "\<not> plus_prefixed n" and um: "unregistered ?m c"
  proof -
    have nm: "?m \<noteq> n" by simp
    have um': "unregistered ?m ?c"
      using um nm by (simp add: unregistered_def st)
    have ai: "autoInject (CStr ?m) ?c = require n ?c"
      by (simp add: autoInject_def needAutoInject_def plus_prefixed_def)
    have g1: "getAlias (AStr n) ?c = AStr n" "getConcrete (AStr n) ?c = Inr (CStr ?m)"
      "\<not> truthy (jsget (instances ?c) n)"
      using np by (simp_all add: getAlias_def getConcrete_def st jsget_def)
    have g2: "getAlias (AStr ?m) ?c = AStr ?m" "getConcrete (AStr ?m) ?c = Inr (CStr ?m)"
      "\<not> truthy (jsget (instances ?c) ?m)"
      using um' by (simp_all add: getAlias_def getConcrete_def unregistered_def jsget_def plus_prefixed_def)
    have inner: "make (Suc k) (AStr ?m) ps ?c = cache_and_mark (AStr ?m) (build k (CStr ?m) ps ?c)"
      using g2 by (simp add: make_Suc[of k "AStr ?m"] Let_def)
    have outer: "make (Suc (Suc k)) (AStr n) ps ?c =
        cache_and_mark (AStr n) (cache_and_mark (AStr ?m) (build k (CStr ?m) ps ?c))"
      using g1 inner nm by (simp add: make_Suc[of "Suc k" "AStr n"] Let_def)
    have nf: "make (Suc (Suc k)) (AStr n) ps ?c = (Inl (ModuleNotFound n), ?c)"
      if "modules c n = None"
    proof -
      have "build k (CStr ?m) ps ?c = (Inl (ModuleNotFound n), ?c)"
        using that by (simp add: build.simps ai require_def st)
      then show ?thesis by (simp add: outer)
    qed
    from ai outer nf show ?thesis by blast
  qed
  from st un undo load show ?thesis by blast
qed

theorem forget_completeness_witness:
  "\<not> plus_prefixed ''hash'' \<and>
   unregistered ''+hash''
     (snd (make 2 (AStr ''hash'') Map.empty
        (singleton ''hash'' (CFun HasherInstance) (new_container Map.empty)))) \<and>
   modules
     (snd (make 2 (AStr ''hash'') Map.empty
        (singleton ''hash'' (CFun HasherInstance) (new_container Map.empty)))) ''hash'' = None \<and>
   unregistered ''hash'' (new_container Map.empty) \<and>
   forgetInstance ''hash'' (bind ''hash'' (CFun HasherInstance) Undefined (new_container Map.empty))
     = new_container Map.empty \<and>
   fst (make 2 (AStr ''hash'') Map.empty
     (forgetInstance ''hash''
       (snd (make 2 (AStr ''hash'') Map.empty
          (singleton ''hash'' (CFun HasherInstance) (new_container Map.empty))))))
     = Inl (ModuleNotFound ''hash'')"
proof -
  let ?c = "snd (make 2 (AStr ''hash'') Map.empty
        (singleton ''hash'' (CFun HasherInstance) (new_container Map.empty)))"
  have np: "\<not> plus_prefixed ''hash''" by (simp add: plus_prefixed_def)
  have um: "unregistered ''+hash'' ?c"
    by (simp add: unregistered_def eval_defs HasherInstance_def numeral_2_eq_2)
  have mo: "modules ?c ''hash'' = None"
    by (simp add: eval_defs HasherInstance_def numeral_2_eq_2)
  have un: "unregistered ''hash'' (new_container Map.empty)"
    by (simp add: unregistered_def new_container_def)
  note t = forget_completeness[of "''hash''" ?c "CFun HasherInstance" Undefined 0 Map.empty]
  note t0 = forget_completeness[of "''hash''" "new_container Map.empty" "CFun HasherInstance" Undefined 0 Map.empty]
  have undo: "forgetInstance ''hash'' (bind ''hash'' (CFun HasherInstance) Undefined (new_container Map.empty))
     = new_container Map.empty"
    using t0 un by blast
  have "make (Suc (Suc 0)) (AStr ''hash'') Map.empty (forgetInstance ''hash'' ?c)
      = (Inl (ModuleNotFound ''hash''), forgetInstance ''hash'' ?c)"
    using t np um mo by blast
  then have "fst (make 2 (AStr ''hash'') Map.empty (forgetInstance ''hash'' ?c)) = Inl (ModuleNotFound ''hash'')"
    by (simp add: numeral_2_eq_2)
  with np um mo un undo show ?thesis by blast
qed

section \<open>Conditional binding\<close>

lemma bindIf_bound: "bound n c \<Longrightarrow> bindIf n conc s c = c"
  by (simp add: bindIf_def)

lemma bindIf_unbound: "\<not> bound n c \<Longrightarrow> bindIf n conc s c = bind n conc s c"
  by (simp add: bindIf_def)

lemma bound_iff:
  "bound n c \<longleftrightarrow>
     bindings c n \<noteq> None \<or> (\<exists>v. instances c n = Some v \<and> truthy v) \<or>
     (\<exists>a. aliases c n = Some a \<and> a \<noteq> [])"
  by (auto simp: bound_def jsget_def isAlias_def split: option.splits)

lemma bindIf_after_bind: "bindIf n c2 s2 (bind n c1 s1 c) = bind n c1 s1 c"
  by (rule bindIf_bound) (simp add: bound_def bind_def dropStaleInstances_def Let_def)

text \<open>
  C9 (bindIf).  The claim counts a name with a cached instance as bound.  \<open>bound\<close> tests
  the cached instance for truthiness: after \<open>instance('n', false)\<close> the name is not
  bound, and \<open>bindIf('n', HasherInstance)\<close> stores the binding and evicts the instance.
\<close>

theorem bindIf_falsy_instance:
  "bindings (bindIf ''n'' (CFun HasherInstance) Undefined
      (instance_reg ''n'' (Bool False) (new_container Map.empty))) ''n''
     = Some \<lparr>concrete = CFun HasherInstance, shared = False\<rparr> \<and>
   instances (bindIf ''n'' (CFun HasherInstance) Undefined
      (instance_reg ''n'' (Bool False) (new_container Map.empty))) ''n'' = None"
  by (simp add: eval_defs)

section \<open>Parameters consumed by a call\<close>

lemma addDependency_params:
  "addDependencyForCallParameter k p ps ds c = (r, ps', c') \<Longrightarrow>
     ps' = (if jsget ps p \<noteq> Undefined then ps(p := None) else ps)"
  by (auto simp: addDependencyForCallParameter_def split: if_splits prod.splits sum.splits)

lemma forEach_parameter_params:
  "forEach_parameter k names ps ds c = (Inr vs, ps', c') \<Longrightarrow> ps' = consumed names ps"
proof (induction names arbitrary: ps ds c)
  case Nil
  then show ?case by (simp add: consumed_def)
next
  case (Cons p rest)
  obtain r ps1 c1 where a: "addDependencyForCallParameter k p ps ds c = (r, ps1, c1)"
    by (cases "addDependencyForCallParameter k p ps ds c")
  with Cons.prems obtain ds1 where r: "r = Inr ds1"
    and rest: "forEach_parameter k rest ps1 ds1 c1 = (Inr vs, ps', c')"
    by (cases r) simp_all
  have ps1: "ps1 = (if jsget ps p \<noteq> Undefined then ps(p := None) else ps)"
    using a by (rule addDependency_params)
  have "ps' = consumed rest ps1" using rest by (rule Cons.IH)
  with ps1 show ?case
    by (auto simp: consumed_def jsget_def fun_eq_iff)
qed



lemma call_plain_params:
  "call_plain k cb ps c = (Inr r, ps', c') \<Longrightarrow>
     \<exists>vs c1. getMethodDependencies k cb ps c = (Inr vs, ps', c1)"
  by (auto simp: call_plain_def split: prod.splits sum.splits)

text \<open>
  C10 (call mutates the parameter map).  When \<open>call\<close> on a function or an
  \<open>[instance, method]\<close> pair returns, the parameter map it leaves is the given one without
  the entries that were defined for a formal parameter of the callee: each such entry has
  been deleted, so the map has changed.  The build path only reads the map: \<open>make\<close>,
  \<open>build\<close> and \<open>getDependencies\<close> have no assignment to it.
\<close>

theorem call_consumes_parameters:
  assumes names: "getCallRefrector cb = Inr names"
    and noat: "\<not> isCallableWithAtSign cb"
    and run: "call k cb ps None c = (Inr r, ps', c')"
  shows "ps' = consumed names ps \<and>
         (\<forall>p \<in> set names. jsget ps p \<noteq> Undefined \<longrightarrow> ps' p = None \<and> ps' \<noteq> ps)"
proof -
  have cp: "call_plain k cb ps c = (Inr r, ps', c')"
    using run noat by (simp add: call_def given_def)
  then obtain vs c1 where "getMethodDependencies k cb ps c = (Inr vs, ps', c1)"
    using call_plain_params by blast
  then have "forEach_parameter k names ps [] c = (Inr vs, ps', c1)"
    using names by (simp add: getMethodDependencies_def)
  then have eq: "ps' = consumed names ps"
    by (rule forEach_parameter_params)
  have del: "ps' p = None" if "p \<in> set names" "jsget ps p \<noteq> Undefined" for p
    using that by (simp add: eq consumed_def)
  have chg: "ps' \<noteq> ps" if "p \<in> set names" "jsget ps p \<noteq> Undefined" for p
  proof
    assume same: "ps' = ps"
    have "ps p \<noteq> None" using that(2) by (cases "ps p") (simp_all add: jsget_def)
    moreover have "ps p = None" using del[OF that] unfolding same .
    ultimately show False by (rule notE)
  qed
  show ?thesis
  proof (intro conjI ballI impI)
    show "ps' = consumed names ps" by (rule eq)
  next
    fix p assume "p \<in> set names" "jsget ps p \<noteq> Undefined"
    then show "ps' p = None" by (rule del)
  next
    fix p assume "p \<in> set names" "jsget ps p \<noteq> Undefined"
    then show "ps' \<noteq> ps" by (rule chg)
  qed
qed

theorem call_consumes_parameters_witness:
  "getCallRefrector (CbFn Closure) = Inr [''id'', ''foobar'', ''barfoo''] \<and>
   \<not> isCallableWithAtSign (CbFn Closure) \<and>
   fst (call 2 (CbFn Closure) [''id'' \<mapsto> Str ''new id''] None
     (instance_reg ''barfoo'' (Str ''demo value'')
        (instance_reg ''foobar'' (Str ''test value'') (new_container Map.empty)))) = Inr (Ret 0) \<and>
   jsget [''id'' \<mapsto> Str ''new id''] ''id'' \<noteq> Undefined \<and>
   fst (snd (call 2 (CbFn Closure) [''id'' \<mapsto> Str ''new id''] None
     (instance_reg ''barfoo'' (Str ''demo value'')
        (instance_reg ''foobar'' (Str ''test value'') (new_container Map.empty))))) ''id'' = None"
proof -
  let ?c = "instance_reg ''barfoo'' (Str ''demo value'')
        (instance_reg ''foobar'' (Str ''test value'') (new_container Map.empty))"
  let ?ps = "[''id'' \<mapsto> Str ''new id'']"
  let ?run = "call 2 (CbFn Closure) ?ps None ?c"
  have refl1: "getCallRefrector (CbFn Closure) = Inr [''id'', ''foobar'', ''barfoo'']"
    by (simp add: getCallRefrector_def Closure_def parse_text_def match_here_def is_space_def)
  have plain: "\<not> isCallableWithAtSign (CbFn Closure)"
    by (simp add: isCallableWithAtSign_def)
  have v: "fst ?run = Inr (Ret 0)"
    by code_simp
  then have run: "?run = (Inr (Ret 0), fst (snd ?run), snd (snd ?run))"
    by (metis prod.collapse)
  have d: "jsget ?ps ''id'' \<noteq> Undefined" by (simp add: jsget_def)
  have gone: "fst (snd ?run) ''id'' = None"
    by (rule call_consumes_parameters[OF refl1 plain run, THEN conjunct2, rule_format,
          of "''id''", THEN conjunct1]) (simp, rule d)
  show ?thesis
    by (intro conjI) (rule refl1 plain v d gone)+
qed

end
